theory Spec2Isabelle
  imports Complex_Main "HOL-Library.Sublist"
begin

section \<open>Data model of \<^verbatim>\<open>WordleSolver.py\<close>\<close>

text \<open>
  Words and letters are Python strings: a word is a \<^typ>\<open>string\<close>, a letter (what iterating
  over a word yields) a \<^typ>\<open>char\<close>. A feedback symbol is the Python string \<^verbatim>\<open>'C'\<close>,
  \<^verbatim>\<open>'P'\<close> or \<^verbatim>\<open>'A'\<close>; the pattern list starts as \<^verbatim>\<open>[''] * 5\<close>, so a cell may also hold
  the empty string. An out-of-range list or string index raises \<^verbatim>\<open>IndexError\<close>, a division
  by zero \<^verbatim>\<open>ZeroDivisionError\<close>, \<^verbatim>\<open>math.log2(0)\<close> raises \<^verbatim>\<open>ValueError\<close>. Printing and
  the progress bar are not modelled.
\<close>

datatype error = IndexError | ZeroDivisionError | ValueError

type_synonym pattern = "string list"

text \<open>\<^verbatim>\<open>counts = defaultdict(int)\<close>: every key reads as 0 until it is incremented.\<close>

type_synonym counts = "char \<Rightarrow> nat"

section \<open>Pattern engine: \<^verbatim>\<open>get_pattern\<close>\<close>

text \<open>
  First pass, \<^verbatim>\<open>for i, (g, t) in enumerate(zip(guess, target))\<close>: equal letters are marked
  \<^verbatim>\<open>'C'\<close> and counted. The assignment \<^verbatim>\<open>pattern[i] = 'C'\<close> raises when \<open>i\<close> is out of range.
\<close>

fun first_pass :: "nat \<Rightarrow> (char \<times> char) list \<Rightarrow> pattern \<times> counts \<Rightarrow> error + pattern \<times> counts" where
  "first_pass i [] pc = Inr pc"
| "first_pass i ((g, t) # rest) (pattern, counts) =
     (if g = t then
        (if i < length pattern
         then first_pass (Suc i) rest (pattern[i := ''C''], counts(t := counts t + 1))
         else Inl IndexError)
      else first_pass (Suc i) rest (pattern, counts))"

text \<open>
  Second pass, \<^verbatim>\<open>for i, g in enumerate(guess)\<close>: the read \<^verbatim>\<open>pattern[i]\<close> raises when \<open>i\<close> is
  out of range; a cell already \<^verbatim>\<open>'C'\<close> is skipped; otherwise the letter is \<^verbatim>\<open>'P'\<close> while
  the target holds more copies of it than have been counted, and \<^verbatim>\<open>'A'\<close> after that.
\<close>

fun second_pass :: "string \<Rightarrow> nat \<Rightarrow> string \<Rightarrow> pattern \<times> counts \<Rightarrow> error + pattern \<times> counts" where
  "second_pass target i [] pc = Inr pc"
| "second_pass target i (g # rest) (pattern, counts) =
     (if \<not> i < length pattern then Inl IndexError
      else if pattern ! i = ''C'' then second_pass target (Suc i) rest (pattern, counts)
      else
        (let total_in_target = length (filter (\<lambda>t. t = g) target) in
         if total_in_target > counts g
         then second_pass target (Suc i) rest (pattern[i := ''P''], counts(g := counts g + 1))
         else second_pass target (Suc i) rest (pattern[i := ''A''], counts)))"

definition get_pattern :: "string \<Rightarrow> string \<Rightarrow> error + pattern" where
  "get_pattern guess target =
     (case first_pass 0 (zip guess target) (replicate 5 '''', \<lambda>_. 0) of
        Inl e \<Rightarrow> Inl e
      | Inr pc \<Rightarrow>
          (case second_pass target 0 guess pc of
             Inl e \<Rightarrow> Inl e
           | Inr (pattern, counts) \<Rightarrow> Inr pattern))"

section \<open>Pattern cache: \<^verbatim>\<open>get_pattern_cached\<close>\<close>

text \<open>
  The class attribute \<^verbatim>\<open>_pattern_cache\<close> is a dictionary keyed by \<^verbatim>\<open>(guess, target)\<close>. It is
  passed in and returned. When \<^verbatim>\<open>get_pattern\<close> raises, nothing is stored.
\<close>

type_synonym cache = "string \<times> string \<rightharpoonup> pattern"

definition get_pattern_cached :: "cache \<Rightarrow> string \<Rightarrow> string \<Rightarrow> (error + pattern) \<times> cache" where
  "get_pattern_cached cache guess target =
     (let key = (guess, target) in
      case cache key of
        None \<Rightarrow>
          (case get_pattern guess target of
             Inl e \<Rightarrow> (Inl e, cache)
           | Inr p \<Rightarrow> (Inr p, cache(key \<mapsto> p)))
      | Some p \<Rightarrow> (Inr p, cache))"

text \<open>The cache after a sequence of calls \<^verbatim>\<open>get_pattern_cached(g, t)\<close>, raising or not.\<close>

fun cache_after :: "cache \<Rightarrow> (string \<times> string) list \<Rightarrow> cache" where
  "cache_after cache [] = cache"
| "cache_after cache ((g, t) # calls) = cache_after (snd (get_pattern_cached cache g t)) calls"

section \<open>Knowledge state\<close>

text \<open>The dictionary \<^verbatim>\<open>self.state\<close> and the solver object around it.\<close>

record state =
  possible :: "string list"
  correct :: "char list"
  present :: "char set"
  absent :: "char set"

record solver =
  answers :: "string list"
  allowed :: "string list"
  state :: state

text \<open>
  \<^verbatim>\<open>__init__\<close>, with the word lists that \<^verbatim>\<open>load_valid_words\<close> read from the files; without a
  guess file the allowed guesses are a copy of the answers.
\<close>

definition init_state :: "string list \<Rightarrow> state" where
  "init_state ans = \<lparr>possible = ans, correct = replicate 5 CHR ''?'', present = {}, absent = {}\<rparr>"

definition init_solver :: "string list \<Rightarrow> string list option \<Rightarrow> solver" where
  "init_solver ans guesses =
     \<lparr>answers = ans,
      allowed = (case guesses of Some gs \<Rightarrow> gs | None \<Rightarrow> ans),
      state = init_state ans\<rparr>"

section \<open>Constraint store and filter\<close>

text \<open>\<^verbatim>\<open>clean_constraints\<close>: the second comprehension reads the present set just rebuilt.\<close>

definition clean_constraints :: "state \<Rightarrow> state" where
  "clean_constraints st =
     (let st1 = st\<lparr>present := Set.filter (\<lambda>p. p \<notin> set (correct st)) (present st)\<rparr>
      in st1\<lparr>absent := Set.filter (\<lambda>a. a \<notin> set (correct st1) \<and> a \<notin> present st1) (absent st1)\<rparr>)"

text \<open>
  \<^verbatim>\<open>is_word_valid\<close>, first loop: \<^verbatim>\<open>if c != '?' and word[i] != c: return False\<close>. The result
  \<open>Inr False\<close> is that early return, \<open>Inr True\<close> the loop running to its end.
\<close>

fun check_correct :: "nat \<Rightarrow> char list \<Rightarrow> string \<Rightarrow> error + bool" where
  "check_correct i [] word = Inr True"
| "check_correct i (c # cs) word =
     (if c \<noteq> CHR ''?'' then
        (if \<not> i < length word then Inl IndexError
         else if word ! i \<noteq> c then Inr False
         else check_correct (Suc i) cs word)
      else check_correct (Suc i) cs word)"

text \<open>
  Last loop: \<^verbatim>\<open>if letter in self.state['present'] and letter == self.state['correct'][i]\<close>.
\<close>

fun check_positions :: "state \<Rightarrow> nat \<Rightarrow> string \<Rightarrow> error + bool" where
  "check_positions st i [] = Inr True"
| "check_positions st i (letter # rest) =
     (if letter \<in> present st then
        (if \<not> i < length (correct st) then Inl IndexError
         else if letter = correct st ! i then Inr False
         else check_positions st (Suc i) rest)
      else check_positions st (Suc i) rest)"

definition is_word_valid :: "state \<Rightarrow> string \<Rightarrow> error + bool" where
  "is_word_valid st word =
     (case check_correct 0 (correct st) word of
        Inl e \<Rightarrow> Inl e
      | Inr False \<Rightarrow> Inr False
      | Inr True \<Rightarrow>
          if \<exists>p \<in> present st. p \<notin> set word then Inr False
          else if \<exists>a \<in> Set.filter (\<lambda>a. a \<notin> set (correct st) \<and> a \<notin> present st) (absent st).
                    a \<in> set word
          then Inr False
          else check_positions st 0 word)"

text \<open>
  \<^verbatim>\<open>update_state\<close>, first loop, over \<^verbatim>\<open>enumerate(feedback)\<close>; the feedback is a list of
  (letter, colour) pairs. A colour other than C, P, A changes nothing. The state is returned
  as the loop left it, also when \<^verbatim>\<open>self.state['correct'][i] = letter\<close> raises.
\<close>

fun feedback_loop :: "nat \<Rightarrow> (char \<times> string) list \<Rightarrow> state \<Rightarrow> (error + unit) \<times> state" where
  "feedback_loop i [] st = (Inr (), st)"
| "feedback_loop i ((letter, color) # rest) st =
     (if color = ''C'' then
        (if \<not> i < length (correct st) then (Inl IndexError, st)
         else feedback_loop (Suc i) rest
                (st\<lparr>correct := (correct st)[i := letter], present := present st - {letter}\<rparr>))
      else if color = ''P'' then
        feedback_loop (Suc i) rest (st\<lparr>present := insert letter (present st)\<rparr>)
      else if color = ''A'' then
        feedback_loop (Suc i) rest (st\<lparr>absent := insert letter (absent st)\<rparr>)
      else feedback_loop (Suc i) rest st)"

text \<open>Second loop: the valid words are appended to \<^verbatim>\<open>new_possible\<close>.\<close>

fun filter_loop :: "state \<Rightarrow> string list \<Rightarrow> string list \<Rightarrow> error + string list" where
  "filter_loop st [] new_possible = Inr new_possible"
| "filter_loop st (word # rest) new_possible =
     (case is_word_valid st word of
        Inl e \<Rightarrow> Inl e
      | Inr valid \<Rightarrow> filter_loop st rest (if valid then new_possible @ [word] else new_possible))"

text \<open>
  \<^verbatim>\<open>update_state\<close> (its parameter \<^verbatim>\<open>guess\<close> is not read). The possible list is assigned by the
  last statement only, so a call that raises leaves it as it was.
\<close>

definition update_state :: "state \<Rightarrow> string \<Rightarrow> (char \<times> string) list \<Rightarrow> (error + unit) \<times> state" where
  "update_state st guess feedback =
     (case feedback_loop 0 feedback st of
        (Inl e, st1) \<Rightarrow> (Inl e, st1)
      | (Inr u, st1) \<Rightarrow>
          (let st2 = clean_constraints st1 in
           case filter_loop st2 (possible st2) [] of
             Inl e \<Rightarrow> (Inl e, st2)
           | Inr new_possible \<Rightarrow> (Inr (), st2\<lparr>possible := new_possible\<rparr>)))"

text \<open>
  The knowledge states of a session: the initial one, and every state a returning call of
  \<^verbatim>\<open>update_state\<close> leaves, whatever the guess and the feedback.
\<close>

inductive reachable :: "state \<Rightarrow> bool" where
  reachable_init: "reachable (init_state ans)"
| reachable_update: "reachable st \<Longrightarrow> update_state st guess feedback = (Inr (), st') \<Longrightarrow> reachable st'"

section \<open>Entropy scorer\<close>

text \<open>
  \<^verbatim>\<open>pattern_counts = defaultdict(int)\<close> keeps its keys in insertion order, which is the order
  \<^verbatim>\<open>values()\<close> yields the counts in: an association list.
\<close>

fun increment :: "(pattern \<times> nat) list \<Rightarrow> pattern \<Rightarrow> (pattern \<times> nat) list" where
  "increment [] k = [(k, 1)]"
| "increment ((k', n) # rest) k = (if k' = k then (k', n + 1) # rest else (k', n) # increment rest k)"

fun count_loop ::
  "cache \<Rightarrow> string \<Rightarrow> string list \<Rightarrow> (pattern \<times> nat) list \<Rightarrow> (error + (pattern \<times> nat) list) \<times> cache" where
  "count_loop cache word [] pattern_counts = (Inr pattern_counts, cache)"
| "count_loop cache word (p # rest) pattern_counts =
     (case get_pattern_cached cache word p of
        (Inl e, cache') \<Rightarrow> (Inl e, cache')
      | (Inr pattern, cache') \<Rightarrow> count_loop cache' word rest (increment pattern_counts pattern))"

text \<open>
  Python's float arithmetic is not part of the repository: the float type \<open>'f\<close> and the
  operations the score uses are parameters. \<open>float_div\<close> is the true division \<^verbatim>\<open>/\<close> of two
  integers, \<open>float_neg\<close> the unary minus, \<open>float_mul\<close> the product, \<open>float_log2\<close>
  \<^verbatim>\<open>math.log2\<close>, and \<open>float_add\<close> the addition \<^verbatim>\<open>sum\<close> performs. Nothing is assumed of them:
  they may round, and the addition need not be associative. The scores computed here are
  finite floats, which \<^verbatim>\<open>>\<close> orders linearly, and \<^verbatim>\<open>sum\<close> starts from the integer 0, the
  zero of \<open>'f\<close>.
\<close>

record 'f float_ops =
  float_div :: "nat \<Rightarrow> nat \<Rightarrow> 'f"
  float_neg :: "'f \<Rightarrow> 'f"
  float_mul :: "'f \<Rightarrow> 'f \<Rightarrow> 'f"
  float_log2 :: "'f \<Rightarrow> 'f"
  float_add :: "'f \<Rightarrow> 'f \<Rightarrow> 'f"

text \<open>
  \<^verbatim>\<open>sum(-(count/total) * math.log2(count/total) for count in ...)\<close>, from 0, left to right,
  in the order \<^verbatim>\<open>values()\<close> yields the counts. The division raises when the total \<open>tot\<close> is
  0, the logarithm when the quotient is 0; with no count to visit nothing is evaluated and
  the sum is 0.
\<close>

fun entropy_sum :: "'f float_ops \<Rightarrow> nat \<Rightarrow> nat list \<Rightarrow> 'f \<Rightarrow> error + 'f" where
  "entropy_sum ops tot [] acc = Inr acc"
| "entropy_sum ops tot (count # rest) acc =
     (if tot = 0 then Inl ZeroDivisionError
      else if count = 0 then Inl ValueError
      else entropy_sum ops tot rest
             (float_add ops acc
                (float_mul ops (float_neg ops (float_div ops count tot))
                   (float_log2 ops (float_div ops count tot)))))"

definition calculate_entropy ::
  "('f::zero) float_ops \<Rightarrow> cache \<Rightarrow> state \<Rightarrow> string \<Rightarrow> (error + 'f) \<times> cache" where
  "calculate_entropy ops cache st word =
     (case count_loop cache word (possible st) [] of
        (Inl e, cache') \<Rightarrow> (Inl e, cache')
      | (Inr pattern_counts, cache') \<Rightarrow>
          (let tot = length (possible st)
           in (entropy_sum ops tot (map snd pattern_counts) 0, cache')))"

text \<open>
  \<^verbatim>\<open>get_best_guess\<close>: \<open>best_score\<close> starts as \<^verbatim>\<open>-float('inf')\<close>, here \<open>None\<close>, below every
  score; \<open>best_word\<close> starts as \<^verbatim>\<open>None\<close>.
\<close>

fun exceeds :: "'f::linorder \<Rightarrow> 'f option \<Rightarrow> bool" where
  "exceeds score None = True"
| "exceeds score (Some best_score) = (score > best_score)"

fun best_loop ::
  "('f::{zero,linorder}) float_ops \<Rightarrow> cache \<Rightarrow> state \<Rightarrow> string list \<Rightarrow> string option \<Rightarrow> 'f option
     \<Rightarrow> (error + string option) \<times> cache" where
  "best_loop ops cache st [] best_word best_score = (Inr best_word, cache)"
| "best_loop ops cache st (word # rest) best_word best_score =
     (case calculate_entropy ops cache st word of
        (Inl e, cache') \<Rightarrow> (Inl e, cache')
      | (Inr score, cache') \<Rightarrow>
          if exceeds score best_score
          then best_loop ops cache' st rest (Some word) (Some score)
          else best_loop ops cache' st rest best_word best_score)"

definition get_best_guess ::
  "('f::{zero,linorder}) float_ops \<Rightarrow> cache \<Rightarrow> solver \<Rightarrow> (error + string option) \<times> cache" where
  "get_best_guess ops cache sv =
     (let candidates = take 2315 (allowed sv)
      in best_loop ops cache (state sv) candidates None None)"

text \<open>
  One instance of the parameters, for worked examples: arithmetic on the real numbers,
  without rounding.
\<close>

definition exact_ops :: "real float_ops" where
  "exact_ops =
     \<lparr>float_div = (\<lambda>a b. real a / real b), float_neg = uminus, float_mul = (*),
      float_log2 = log 2, float_add = (+)\<rparr>"

section \<open>Predicates of the specification\<close>

text \<open>A cache is sound when every stored entry is what \<^verbatim>\<open>get_pattern\<close> returns for its key.\<close>

definition cache_sound :: "cache \<Rightarrow> bool" where
  "cache_sound cache = (\<forall>g t p. cache (g, t) = Some p \<longrightarrow> get_pattern g t = Inr p)"

text \<open>
  The invariant of the knowledge state: no required letter is recorded in the list of fixed
  positions, and no excluded letter is fixed or required.
\<close>

definition cleaned :: "state \<Rightarrow> bool" where
  "cleaned st =
     (present st \<inter> set (correct st) = {} \<and> absent st \<inter> (set (correct st) \<union> present st) = {})"

text \<open>
  Following the words of claim C10: \<^verbatim>\<open>is_word_valid\<close> with its first three checks only (fixed
  positions, required letters, excluded letters), the last loop left out.
\<close>

definition first_three_checks :: "state \<Rightarrow> string \<Rightarrow> error + bool" where
  "first_three_checks st word =
     (case check_correct 0 (correct st) word of
        Inl e \<Rightarrow> Inl e
      | Inr False \<Rightarrow> Inr False
      | Inr True \<Rightarrow>
          if \<exists>p \<in> present st. p \<notin> set word then Inr False
          else if \<exists>a \<in> Set.filter (\<lambda>a. a \<notin> set (correct st) \<and> a \<notin> present st) (absent st).
                    a \<in> set word
          then Inr False
          else Inr True)"

text \<open>
  The number of occurrences of the letter \<open>c\<close> in the guess that the pattern marks Correct
  or Present.
\<close>

definition non_absent :: "string \<Rightarrow> pattern \<Rightarrow> char \<Rightarrow> nat" where
  "non_absent guess p c =
     length (filter (\<lambda>(g, m). g = c \<and> (m = ''C'' \<or> m = ''P'')) (zip guess p))"

text \<open>
  The score of a word in a state: what \<^verbatim>\<open>calculate_entropy\<close> returns for it, with the given
  float arithmetic, when the pattern cache is empty.
\<close>

definition entropy_of :: "('f::zero) float_ops \<Rightarrow> state \<Rightarrow> string \<Rightarrow> error + 'f" where
  "entropy_of ops st word = fst (calculate_entropy ops Map.empty st word)"

section \<open>Concrete scenario\<close>

text \<open>
  Claim C3, as the code behaves: for the guess \<^verbatim>\<open>CRANE\<close> against the target \<^verbatim>\<open>SLATE\<close>,
  \<^verbatim>\<open>get_pattern\<close> returns (Absent, Absent, Correct, Absent, Correct): only the third and
  the fifth letters match, and C, R and N do not occur in the target.
\<close>

theorem get_pattern_crane_slate:
  "get_pattern ''CRANE'' ''SLATE'' = Inr [''A'', ''A'', ''C'', ''A'', ''C'']"
  by (simp add: get_pattern_def eval_nat_numeral)

text \<open>
  Claim C3, as stated: the pattern (Absent, Present, Absent, Correct, Present) is not what
  \<^verbatim>\<open>get_pattern\<close> returns for \<^verbatim>\<open>CRANE\<close> against \<^verbatim>\<open>SLATE\<close>.
\<close>

theorem get_pattern_crane_slate_counterexample:
  "get_pattern ''CRANE'' ''SLATE'' \<noteq> Inr [''A'', ''P'', ''A'', ''C'', ''P'']"
  by (simp add: get_pattern_def eval_nat_numeral)

section \<open>Correctness of the pattern engine\<close>

subsection \<open>First pass\<close>

lemma first_pass_total:
  "i + length zs \<le> length p \<Longrightarrow> \<exists>r. first_pass i zs (p, cn) = Inr r"
  by (induction zs arbitrary: i p cn) auto

lemma first_pass_length:
  "first_pass i zs (p, cn) = Inr (p', cn') \<Longrightarrow> length p' = length p"
  by (induction zs arbitrary: i p cn) (auto split: if_splits)

lemma first_pass_nth:
  "first_pass i zs (p, cn) = Inr (p', cn') \<Longrightarrow>
   p' ! j = (if i \<le> j \<and> j < i + length zs \<and> fst (zs ! (j - i)) = snd (zs ! (j - i))
             then ''C'' else p ! j)"
proof (induction zs arbitrary: i p cn)
  case Nil
  then show ?case by auto
next
  case (Cons z zs)
  obtain g t where z: "z = (g, t)" by (cases z)
  show ?case
  proof (cases "g = t")
    case True
    with Cons.prems z have lt: "i < length p"
      and rec: "first_pass (Suc i) zs (p[i := ''C''], cn(t := cn t + 1)) = Inr (p', cn')"
      by (auto split: if_splits)
    from Cons.IH[OF rec] True z lt show ?thesis
      by (cases "j = i") (auto simp: nth_Cons' Suc_diff_le)
  next
    case False
    with Cons.prems z have rec: "first_pass (Suc i) zs (p, cn) = Inr (p', cn')"
      by auto
    from Cons.IH[OF rec] False z show ?thesis
      by (cases "j = i") (auto simp: nth_Cons' Suc_diff_le)
  qed
qed

lemma first_pass_counts:
  "first_pass i zs (p, cn) = Inr (p', cn') \<Longrightarrow>
   cn' c = cn c + length (filter (\<lambda>(g, t). g = t \<and> t = c) zs)"
  by (induction zs arbitrary: i p cn) (auto split: if_splits)

subsection \<open>Second pass\<close>

lemma second_pass_total:
  "i + length rest \<le> length p \<Longrightarrow> \<exists>r. second_pass target i rest (p, cn) = Inr r"
  by (induction rest arbitrary: i p cn) (auto simp: Let_def)

lemma second_pass_fits:
  "second_pass target i rest (p, cn) = Inr (p', cn') \<Longrightarrow> i + length rest \<le> length p \<or> rest = []"
  by (induction rest arbitrary: i p cn) (fastforce simp: Let_def split: if_splits)+

lemma second_pass_length:
  "second_pass target i rest (p, cn) = Inr (p', cn') \<Longrightarrow> length p' = length p"
  by (induction rest arbitrary: i p cn) (auto simp: Let_def split: if_splits)

lemma second_pass_outside:
  "second_pass target i rest (p, cn) = Inr (p', cn') \<Longrightarrow> j < i \<or> i + length rest \<le> j \<Longrightarrow>
   p' ! j = p ! j"
proof (induction rest arbitrary: i p cn)
  case Nil
  then show ?case by simp
next
  case (Cons g rest)
  from Cons.prems(2) have j: "j < Suc i \<or> Suc i + length rest \<le> j" and ne: "j \<noteq> i" by auto
  from Cons.prems(1) consider
      (c) "second_pass target (Suc i) rest (p, cn) = Inr (p', cn')"
    | (p) "second_pass target (Suc i) rest (p[i := ''P''], cn(g := cn g + 1)) = Inr (p', cn')"
    | (a) "second_pass target (Suc i) rest (p[i := ''A''], cn) = Inr (p', cn')"
    by (auto simp: Let_def split: if_splits)
  then show ?case
  proof cases
    case c
    from Cons.IH[OF c j] show ?thesis .
  next
    case p
    from Cons.IH[OF p j] ne show ?thesis by simp
  next
    case a
    from Cons.IH[OF a j] ne show ?thesis by simp
  qed
qed

text \<open>What the second pass sees at position \<open>i\<close> and what it does there.\<close>

lemma second_pass_Cons:
  assumes "second_pass target i (g # rest) (p, cn) = Inr (p', cn')"
  shows "i < length p \<and>
    (p ! i = ''C'' \<and> p' ! i = ''C'' \<and> second_pass target (Suc i) rest (p, cn) = Inr (p', cn') \<or>
     p ! i \<noteq> ''C'' \<and> cn g < length (filter (\<lambda>t. t = g) target) \<and> p' ! i = ''P'' \<and>
       second_pass target (Suc i) rest (p[i := ''P''], cn(g := cn g + 1)) = Inr (p', cn') \<or>
     p ! i \<noteq> ''C'' \<and> length (filter (\<lambda>t. t = g) target) \<le> cn g \<and> p' ! i = ''A'' \<and>
       second_pass target (Suc i) rest (p[i := ''A''], cn) = Inr (p', cn'))"
proof -
  from assms have lt: "i < length p" by (auto split: if_splits)
  from assms lt consider
      (c) "p ! i = ''C''" "second_pass target (Suc i) rest (p, cn) = Inr (p', cn')"
    | (p) "p ! i \<noteq> ''C''" "cn g < length (filter (\<lambda>t. t = g) target)"
          "second_pass target (Suc i) rest (p[i := ''P''], cn(g := cn g + 1)) = Inr (p', cn')"
    | (a) "p ! i \<noteq> ''C''" "length (filter (\<lambda>t. t = g) target) \<le> cn g"
          "second_pass target (Suc i) rest (p[i := ''A''], cn) = Inr (p', cn')"
    by (auto simp: Let_def split: if_splits)
  then show ?thesis
  proof cases
    case c
    from second_pass_outside[OF c(2), of i] c lt show ?thesis by simp
  next
    case p
    from second_pass_outside[OF p(3), of i] p lt show ?thesis by simp
  next
    case a
    from second_pass_outside[OF a(3), of i] a lt show ?thesis by simp
  qed
qed

lemma second_pass_counts:
  "second_pass target i rest (p, cn) = Inr (p', cn') \<Longrightarrow>
   cn' c = cn c + length (filter (\<lambda>(g, m). g = c \<and> m = ''P'') (zip rest (drop i p')))"
proof (induction rest arbitrary: i p cn)
  case Nil
  then show ?case by simp
next
  case (Cons g rest)
  from second_pass_length[OF Cons.prems] second_pass_Cons[OF Cons.prems]
  have lt: "i < length p'" by simp
  then have dr: "drop i p' = p' ! i # drop (Suc i) p'" by (simp add: Cons_nth_drop_Suc)
  from second_pass_Cons[OF Cons.prems] show ?case
    by (auto simp: dr dest!: Cons.IH)
qed

lemma second_pass_mono:
  "second_pass target i rest (p, cn) = Inr (p', cn') \<Longrightarrow> cn c \<le> cn' c"
  by (simp add: second_pass_counts)

lemma second_pass_bound:
  "second_pass target i rest (p, cn) = Inr (p', cn') \<Longrightarrow>
   cn c \<le> length (filter (\<lambda>t. t = c) target) \<Longrightarrow> cn' c \<le> length (filter (\<lambda>t. t = c) target)"
proof (induction rest arbitrary: i p cn)
  case Nil
  then show ?case by simp
next
  case (Cons g rest)
  from second_pass_Cons[OF Cons.prems(1)] Cons.prems(2) show ?case
    by (auto dest!: Cons.IH)
qed

lemma second_pass_marks:
  "second_pass target i rest (p, cn) = Inr (p', cn') \<Longrightarrow> j < length rest \<Longrightarrow>
   (p ! (i + j) = ''C'' \<and> p' ! (i + j) = ''C'') \<or>
   (p ! (i + j) \<noteq> ''C'' \<and> p' ! (i + j) = ''P'' \<and> rest ! j \<in> set target) \<or>
   (p ! (i + j) \<noteq> ''C'' \<and> p' ! (i + j) = ''A'' \<and>
      length (filter (\<lambda>t. t = rest ! j) target) \<le> cn' (rest ! j))"
proof (induction rest arbitrary: i j p cn)
  case Nil
  then show ?case by simp
next
  case (Cons g rest)
  note step = second_pass_Cons[OF Cons.prems(1)]
  show ?case
  proof (cases j)
    case 0
    have pos: "g \<in> set target" if "cn g < length (filter (\<lambda>t. t = g) target)"
    proof (rule ccontr)
      assume "g \<notin> set target"
      then have "filter (\<lambda>t. t = g) target = []" by (auto simp: filter_empty_conv)
      with that show False by simp
    qed
    from step show ?thesis
    proof (elim conjE disjE)
      assume "p ! i = ''C''" "p' ! i = ''C''"
      with 0 show ?thesis by simp
    next
      assume a: "p ! i \<noteq> ''C''" "cn g < length (filter (\<lambda>t. t = g) target)" "p' ! i = ''P''"
      then have "g \<in> set target" by (intro pos)
      with a 0 show ?thesis by simp
    next
      assume a: "p ! i \<noteq> ''C''" "length (filter (\<lambda>t. t = g) target) \<le> cn g" "p' ! i = ''A''"
        "second_pass target (Suc i) rest (p[i := ''A''], cn) = Inr (p', cn')"
      from second_pass_mono[OF a(4), of g] a 0 show ?thesis by simp
    qed
  next
    case (Suc k)
    with Cons.prems(2) have k: "k < length rest" by simp
    from step show ?thesis
    proof (elim conjE disjE)
      assume r: "second_pass target (Suc i) rest (p, cn) = Inr (p', cn')"
      from Cons.IH[OF r k] Suc show ?thesis by simp
    next
      assume r: "second_pass target (Suc i) rest (p[i := ''P''], cn(g := cn g + 1)) = Inr (p', cn')"
      from Cons.IH[OF r k] Suc show ?thesis by simp
    next
      assume r: "second_pass target (Suc i) rest (p[i := ''A''], cn) = Inr (p', cn')"
      from Cons.IH[OF r k] Suc show ?thesis by simp
    qed
  qed
qed

subsection \<open>Counting marks\<close>

lemma length_filter_zip_card:
  "length (filter (\<lambda>(x, y). P x y) (zip xs ys)) =
   card {j. j < length xs \<and> j < length ys \<and> P (xs ! j) (ys ! j)}"
proof -
  have "{i. i < length (zip xs ys) \<and> (case zip xs ys ! i of (x, y) \<Rightarrow> P x y)} =
        {j. j < length xs \<and> j < length ys \<and> P (xs ! j) (ys ! j)}"
    by auto
  then show ?thesis by (simp only: length_filter_conv_card)
qed

lemma length_filter_card: "length (filter P xs) = card {j. j < length xs \<and> P (xs ! j)}"
  by (rule length_filter_conv_card)

lemma agree_le_target:
  "length (filter (\<lambda>(x, y). x = y \<and> y = c) (zip g t)) \<le> length (filter (\<lambda>y. y = c) t)"
proof (induction t arbitrary: g)
  case Nil
  then show ?case by simp
next
  case (Cons y t)
  show ?case
  proof (cases g)
    case Nil
    then show ?thesis by simp
  next
    case (Cons x g')
    with Cons.IH[of g'] show ?thesis by auto
  qed
qed

lemma non_absent_le_guess: "non_absent g p c \<le> length (filter (\<lambda>x. x = c) g)"
  unfolding non_absent_def
proof (induction g arbitrary: p)
  case Nil
  then show ?case by simp
next
  case (Cons x g)
  show ?case
  proof (cases p)
    case Nil
    then show ?thesis by simp
  next
    case (Cons m p')
    with Cons.IH[of p'] show ?thesis by auto
  qed
qed

lemma non_absent_split:
  "non_absent g p c =
     length (filter (\<lambda>(x, m). x = c \<and> m = ''C'') (zip g p)) +
     length (filter (\<lambda>(x, m). x = c \<and> m = ''P'') (zip g p))"
proof -
  have "length (filter (\<lambda>(x, m). x = c \<and> (m = ''C'' \<or> m = ''P'')) zs) =
      length (filter (\<lambda>(x, m). x = c \<and> m = ''C'') zs) +
      length (filter (\<lambda>(x, m). x = c \<and> m = ''P'') zs)" for zs :: "(char \<times> string) list"
    by (induction zs) auto
  then show ?thesis unfolding non_absent_def .
qed

subsection \<open>The returned pattern\<close>

lemma get_pattern_total: "length guess \<le> 5 \<Longrightarrow> \<exists>p. get_pattern guess target = Inr p"
proof -
  assume len: "length guess \<le> 5"
  then have "0 + length (zip guess target) \<le> length (replicate 5 ([]::string))" by simp
  from first_pass_total[OF this] obtain p1 cn1
    where f: "first_pass 0 (zip guess target) (replicate 5 [], \<lambda>_. 0) = Inr (p1, cn1)"
    by fastforce
  from first_pass_length[OF f] len have "0 + length guess \<le> length p1" by simp
  from second_pass_total[OF this] obtain p2 cn2
    where "second_pass target 0 guess (p1, cn1) = Inr (p2, cn2)" by fastforce
  with f show ?thesis by (simp add: get_pattern_def)
qed

lemma get_pattern_passes:
  assumes "get_pattern guess target = Inr p"
  obtains p1 cn1 cn2 where
    "first_pass 0 (zip guess target) (replicate 5 [], \<lambda>_. 0) = Inr (p1, cn1)"
    "second_pass target 0 guess (p1, cn1) = Inr (p, cn2)"
  using assms by (auto simp: get_pattern_def split: sum.splits prod.splits)

lemma get_pattern_facts:
  assumes "get_pattern guess target = Inr p"
  shows "\<exists>cn. length p = 5 \<and> length guess \<le> 5 \<and>
    (\<forall>j<5. (p ! j = ''C'') = (j < length guess \<and> j < length target \<and> guess ! j = target ! j)) \<and>
    (\<forall>j<length guess.
       p ! j = ''C'' \<or> p ! j = ''P'' \<and> guess ! j \<in> set target \<or>
       p ! j = ''A'' \<and> length (filter (\<lambda>t. t = guess ! j) target) \<le> cn (guess ! j)) \<and>
    (\<forall>c. cn c = non_absent guess p c) \<and>
    (\<forall>c. cn c \<le> length (filter (\<lambda>t. t = c) target))"
proof -
  from assms obtain p1 cn1 cn2 where
    f: "first_pass 0 (zip guess target) (replicate 5 [], \<lambda>_. 0) = Inr (p1, cn1)" and
    s: "second_pass target 0 guess (p1, cn1) = Inr (p, cn2)"
    by (rule get_pattern_passes)
  have len1: "length p1 = 5" using first_pass_length[OF f] by simp
  have len: "length p = 5" using second_pass_length[OF s] len1 by simp
  have fits: "length guess \<le> 5" using second_pass_fits[OF s] len1 by auto
  have p1: "p1 ! j = (if j < length guess \<and> j < length target \<and> guess ! j = target ! j
                     then ''C'' else [])" if "j < 5" for j
    using first_pass_nth[OF f, of j] that by auto
  have marks: "(p1 ! j = ''C'' \<and> p ! j = ''C'') \<or>
      (p1 ! j \<noteq> ''C'' \<and> p ! j = ''P'' \<and> guess ! j \<in> set target) \<or>
      (p1 ! j \<noteq> ''C'' \<and> p ! j = ''A'' \<and>
         length (filter (\<lambda>t. t = guess ! j) target) \<le> cn2 (guess ! j))"
    if "j < length guess" for j
    using second_pass_marks[OF s that] by simp
  have c_iff: "(p ! j = ''C'') = (j < length guess \<and> j < length target \<and> guess ! j = target ! j)"
    if j: "j < 5" for j
  proof (cases "j < length guess")
    case True
    from marks[OF True] p1[OF j] show ?thesis by (auto split: if_splits)
  next
    case False
    then have "p ! j = p1 ! j" using second_pass_outside[OF s, of j] by simp
    with p1[OF j] False show ?thesis by simp
  qed
  have cn1: "cn1 c = length (filter (\<lambda>(x, m). x = c \<and> m = ''C'') (zip guess p))" for c
  proof -
    have "cn1 c = length (filter (\<lambda>(g, t). g = t \<and> t = c) (zip guess target))"
      using first_pass_counts[OF f, of c] by simp
    also have "\<dots> = card {j. j < length guess \<and> j < length target \<and>
        guess ! j = target ! j \<and> target ! j = c}"
      by (rule length_filter_zip_card)
    also have "{j. j < length guess \<and> j < length target \<and> guess ! j = target ! j \<and> target ! j = c}
        = {j. j < length guess \<and> j < length p \<and> guess ! j = c \<and> p ! j = ''C''}"
      using c_iff fits len by auto
    also have "card \<dots> = length (filter (\<lambda>(x, m). x = c \<and> m = ''C'') (zip guess p))"
      by (rule length_filter_zip_card[symmetric])
    finally show ?thesis .
  qed
  have cn2: "cn2 c = non_absent guess p c" for c
    using second_pass_counts[OF s, of c] cn1[of c] by (simp add: non_absent_split)
  have bound: "cn2 c \<le> length (filter (\<lambda>t. t = c) target)" for c
  proof (rule second_pass_bound[OF s])
    show "cn1 c \<le> length (filter (\<lambda>t. t = c) target)"
      using first_pass_counts[OF f, of c] agree_le_target[of c guess target] by simp
  qed
  from len fits c_iff marks cn2 bound show ?thesis
    by (intro exI[of _ cn2] conjI allI impI) blast+
qed

lemma non_absent_min:
  assumes "get_pattern guess target = Inr p"
  shows "non_absent guess p c =
         min (length (filter (\<lambda>x. x = c) guess)) (length (filter (\<lambda>t. t = c) target))"
proof -
  from get_pattern_facts[OF assms] obtain cn where
    len: "length p = 5" "length guess \<le> 5" and
    marks: "\<And>j. j < length guess \<Longrightarrow>
       p ! j = ''C'' \<or> p ! j = ''P'' \<and> guess ! j \<in> set target \<or>
       p ! j = ''A'' \<and> length (filter (\<lambda>t. t = guess ! j) target) \<le> cn (guess ! j)" and
    cn: "\<And>c. cn c = non_absent guess p c" and
    bound: "\<And>c. cn c \<le> length (filter (\<lambda>t. t = c) target)"
    by blast
  show ?thesis
  proof (cases "\<exists>j<length guess. guess ! j = c \<and> p ! j = ''A''")
    case True
    then obtain j where j: "j < length guess" "guess ! j = c" "p ! j = ''A''" by blast
    from marks[OF j(1)] j have "length (filter (\<lambda>t. t = c) target) \<le> cn c" by auto
    with bound[of c] cn[of c] non_absent_le_guess[of guess p c] show ?thesis by simp
  next
    case False
    with marks have all: "\<And>j. j < length guess \<Longrightarrow> guess ! j = c \<Longrightarrow> p ! j = ''C'' \<or> p ! j = ''P''"
      by blast
    have "non_absent guess p c =
        card {j. j < length guess \<and> j < length p \<and> guess ! j = c \<and> (p ! j = ''C'' \<or> p ! j = ''P'')}"
      unfolding non_absent_def by (rule length_filter_zip_card)
    also have "{j. j < length guess \<and> j < length p \<and> guess ! j = c \<and> (p ! j = ''C'' \<or> p ! j = ''P'')}
        = {j. j < length guess \<and> guess ! j = c}"
      using all len by auto
    also have "card \<dots> = length (filter (\<lambda>x. x = c) guess)"
      by (rule length_filter_card[symmetric])
    finally have eq: "non_absent guess p c = length (filter (\<lambda>x. x = c) guess)" .
    with bound[of c] cn[of c] show ?thesis by simp
  qed
qed

text \<open>
  Claim C2: for words of equal length, \<^verbatim>\<open>get_pattern\<close> returns a pattern when they have at
  most five letters, and every pattern it returns has five cells, is \<^verbatim>\<open>'C'\<close> exactly at the
  positions where guess and target agree, marks every letter of the guess C, P or A, and for
  each letter gives C or P to as many of its occurrences in the guess as the target has
  occurrences of it, or to all when the guess has fewer: never more than the target holds,
  the remaining occurrences being A.
\<close>

theorem get_pattern_marks:
  assumes "length guess = length target"
  shows "(length guess \<le> 5 \<longrightarrow> (\<exists>p. get_pattern guess target = Inr p)) \<and>
         (\<forall>p. get_pattern guess target = Inr p \<longrightarrow>
            length p = 5 \<and>
            (\<forall>i<5. (p ! i = ''C'') = (i < length guess \<and> guess ! i = target ! i)) \<and>
            (\<forall>i<length guess. p ! i = ''C'' \<or> p ! i = ''P'' \<or> p ! i = ''A'') \<and>
            (\<forall>c. non_absent guess p c \<le> length (filter (\<lambda>t. t = c) target)) \<and>
            (\<forall>c. non_absent guess p c =
                   min (length (filter (\<lambda>g. g = c) guess)) (length (filter (\<lambda>t. t = c) target))))"
proof (intro conjI allI impI)
  show "\<exists>p. get_pattern guess target = Inr p" if "length guess \<le> 5"
    using that by (rule get_pattern_total)
next
  fix p
  assume pat: "get_pattern guess target = Inr p"
  from get_pattern_facts[OF pat] obtain cn where
    len: "length p = 5" and
    c_iff: "\<And>j. j < 5 \<Longrightarrow>
       (p ! j = ''C'') = (j < length guess \<and> j < length target \<and> guess ! j = target ! j)" and
    marks: "\<And>j. j < length guess \<Longrightarrow>
       p ! j = ''C'' \<or> p ! j = ''P'' \<and> guess ! j \<in> set target \<or>
       p ! j = ''A'' \<and> length (filter (\<lambda>t. t = guess ! j) target) \<le> cn (guess ! j)"
    by blast
  show "length p = 5" by (rule len)
  show "(p ! i = ''C'') = (i < length guess \<and> guess ! i = target ! i)" if "i < 5" for i
    using c_iff[OF that] assms by auto
  show "p ! i = ''C'' \<or> p ! i = ''P'' \<or> p ! i = ''A''" if "i < length guess" for i
    using marks[OF that] by blast
  show eq: "non_absent guess p c =
      min (length (filter (\<lambda>g. g = c) guess)) (length (filter (\<lambda>t. t = c) target))" for c
    using pat by (rule non_absent_min)
  show "non_absent guess p c \<le> length (filter (\<lambda>t. t = c) target)" for c
    by (simp add: eq)
qed

theorem get_pattern_marks_witness:
  "length ''SPEED'' = length ''ERASE'' \<and>
   get_pattern ''SPEED'' ''ERASE'' = Inr [''P'', ''A'', ''P'', ''P'', ''A''] \<and>
   non_absent ''SPEED'' [''P'', ''A'', ''P'', ''P'', ''A''] CHR ''E'' = 2"
proof -
  have len: "length ''SPEED'' = length ''ERASE''" by simp
  have run: "get_pattern ''SPEED'' ''ERASE'' = Inr [''P'', ''A'', ''P'', ''P'', ''A'']"
    by (simp add: get_pattern_def eval_nat_numeral)
  from get_pattern_marks [OF len] run
  have "non_absent ''SPEED'' [''P'', ''A'', ''P'', ''P'', ''A''] CHR ''E'' =
      min (length (filter (\<lambda>g. g = CHR ''E'') ''SPEED''))
          (length (filter (\<lambda>t. t = CHR ''E'') ''ERASE''))"
    by blast
  then have "non_absent ''SPEED'' [''P'', ''A'', ''P'', ''P'', ''A''] CHR ''E'' = 2"
    by simp
  with len run show ?thesis by blast
qed

section \<open>The pattern cache is transparent\<close>

lemma cache_sound_empty: "cache_sound Map.empty"
  by (simp add: cache_sound_def)

lemma get_pattern_cached_sound:
  "cache_sound cache \<Longrightarrow> cache_sound (snd (get_pattern_cached cache g t))"
  by (auto simp: cache_sound_def get_pattern_cached_def Let_def split: option.splits sum.splits)

lemma get_pattern_cached_result:
  "cache_sound cache \<Longrightarrow> fst (get_pattern_cached cache g t) = get_pattern g t"
  by (auto simp: cache_sound_def get_pattern_cached_def Let_def split: option.splits sum.splits)

lemma cache_after_sound: "cache_sound cache \<Longrightarrow> cache_sound (cache_after cache calls)"
  by (induction cache calls rule: cache_after.induct) (auto intro: get_pattern_cached_sound)

text \<open>
  Claim C9: whatever calls of \<^verbatim>\<open>get_pattern_cached\<close> have filled the cache since it was
  created empty, \<^verbatim>\<open>get_pattern_cached(guess, target)\<close> returns (or raises) exactly what
  \<^verbatim>\<open>get_pattern(guess, target)\<close> does.
\<close>

theorem get_pattern_cached_equiv:
  "fst (get_pattern_cached (cache_after Map.empty calls) guess target) = get_pattern guess target"
  by (rule get_pattern_cached_result) (rule cache_after_sound, rule cache_sound_empty)

theorem get_pattern_cached_equiv_witness:
  "fst (get_pattern_cached
          (cache_after Map.empty [(''CRANE'', ''SLATE''), (''SLATE'', ''CRANE'')]) ''CRANE'' ''SLATE'')
     = Inr [''A'', ''A'', ''C'', ''A'', ''C'']"
  using get_pattern_cached_equiv [of "[(''CRANE'', ''SLATE''), (''SLATE'', ''CRANE'')]" "''CRANE''" "''SLATE''"]
  by (simp add: get_pattern_def eval_nat_numeral)

section \<open>Cleanup\<close>

text \<open>
  Claim C7: cleanup is idempotent: a second \<^verbatim>\<open>clean_constraints\<close> leaves the state (its
  present and absent sets in particular) as the first one left it.
\<close>

theorem clean_constraints_idempotent:
  "clean_constraints (clean_constraints st) = clean_constraints st"
  by (auto simp: clean_constraints_def Let_def)

lemma cleaned_clean_constraints: "cleaned (clean_constraints st)"
  by (auto simp: cleaned_def clean_constraints_def Let_def)

lemma cleaned_possible_update: "cleaned (st\<lparr>possible := ws\<rparr>) = cleaned st"
  by (simp add: cleaned_def)

lemma clean_constraints_possible: "possible (clean_constraints st) = possible st"
  by (simp add: clean_constraints_def Let_def)

lemma clean_constraints_correct: "correct (clean_constraints st) = correct st"
  by (simp add: clean_constraints_def Let_def)

section \<open>The candidate list only shrinks\<close>

lemma feedback_loop_possible: "possible (snd (feedback_loop i fb st)) = possible st"
  by (induction i fb st rule: feedback_loop.induct) auto

lemma filter_loop_eq:
  "filter_loop st ws acc = Inr np \<Longrightarrow> np = acc @ filter (\<lambda>w. is_word_valid st w = Inr True) ws"
proof (induction ws arbitrary: acc)
  case Nil
  then show ?case by simp
next
  case (Cons w ws)
  then show ?case
    by (cases "is_word_valid st w") (force split: if_splits)+
qed

lemma update_state_possible:
  "possible (snd (update_state st g fb)) = possible st \<or>
   possible (snd (update_state st g fb)) =
     filter (\<lambda>w. is_word_valid (clean_constraints (snd (feedback_loop 0 fb st))) w = Inr True)
       (possible st)"
proof (cases "feedback_loop 0 fb st")
  case (Pair r st1)
  show ?thesis
  proof (cases r)
    case (Inl e)
    with Pair feedback_loop_possible[of 0 fb st] show ?thesis
      by (simp add: update_state_def)
  next
    case (Inr u)
    show ?thesis
    proof (cases "filter_loop (clean_constraints st1) (possible (clean_constraints st1)) []")
      case (Inl e)
      with Pair Inr feedback_loop_possible[of 0 fb st] show ?thesis
        by (simp add: update_state_def Let_def clean_constraints_possible)
    next
      case (Inr np)
      from filter_loop_eq[OF Inr] Pair \<open>r = Inr u\<close> Inr feedback_loop_possible[of 0 fb st]
      show ?thesis
        by (simp add: update_state_def Let_def clean_constraints_possible)
    qed
  qed
qed

text \<open>
  Claim C5: for every state, guess and feedback, the possible list after \<^verbatim>\<open>update_state\<close>
  (returning or raising) is a subsequence of the possible list before the call: its words
  are among the earlier ones and it is no longer.
\<close>

theorem update_state_shrinks:
  "subseq (possible (snd (update_state st guess feedback))) (possible st) \<and>
   set (possible (snd (update_state st guess feedback))) \<subseteq> set (possible st) \<and>
   length (possible (snd (update_state st guess feedback))) \<le> length (possible st)"
  using update_state_possible[of st guess feedback]
  by (auto intro: le_trans[OF length_filter_le])

theorem update_state_shrinks_witness:
  "possible (snd (update_state (init_state [''CRANE'', ''SLATE'']) ''CRANE''
      (zip ''CRANE'' [''A'', ''A'', ''C'', ''A'', ''C'']))) = [''SLATE''] \<and>
   subseq [''SLATE''] (possible (init_state [''CRANE'', ''SLATE'']))"
proof -
  have run: "possible (snd (update_state (init_state [''CRANE'', ''SLATE'']) ''CRANE''
      (zip ''CRANE'' [''A'', ''A'', ''C'', ''A'', ''C'']))) = [''SLATE'']"
    by code_simp
  with update_state_shrinks [of "init_state [''CRANE'', ''SLATE'']" "''CRANE''"
      "zip ''CRANE'' [''A'', ''A'', ''C'', ''A'', ''C'']"]
  show ?thesis by simp
qed

section \<open>The invariant of the knowledge state\<close>

lemma feedback_loop_length_correct:
  "length (correct (snd (feedback_loop i fb st))) = length (correct st)"
  by (induction i fb st rule: feedback_loop.induct) auto

lemma feedback_loop_returns:
  "i + length fb \<le> length (correct st) \<Longrightarrow> fst (feedback_loop i fb st) = Inr ()"
  by (induction i fb st rule: feedback_loop.induct) auto

lemma update_state_after_loop:
  assumes ok: "fst (feedback_loop 0 fb st) = Inr ()"
  shows "cleaned (snd (update_state st g fb))"
proof -
  obtain r st1 where loop: "feedback_loop 0 fb st = (r, st1)" by (cases "feedback_loop 0 fb st")
  with ok have r: "r = Inr ()" by simp
  show ?thesis
  proof (cases "filter_loop (clean_constraints st1) (possible (clean_constraints st1)) []")
    case (Inl e)
    with loop r show ?thesis
      by (simp add: update_state_def Let_def cleaned_clean_constraints)
  next
    case (Inr np)
    with loop r show ?thesis
      by (simp add: update_state_def Let_def cleaned_possible_update cleaned_clean_constraints)
  qed
qed

lemma update_state_returns_loop:
  "fst (update_state st g fb) = Inr () \<Longrightarrow> fst (feedback_loop 0 fb st) = Inr ()"
  by (cases "feedback_loop 0 fb st") (auto simp: update_state_def split: sum.splits)

text \<open>
  Claim C8: after a call of \<^verbatim>\<open>update_state\<close> that returns, and after any call whose feedback
  is no longer than the list of fixed positions (five), the present set is disjoint from the
  letters in the fixed positions and the absent set holds no letter that is fixed or present.
\<close>

theorem update_state_cleaned:
  assumes "fst (update_state st guess feedback) = Inr () \<or> length feedback \<le> length (correct st)"
  shows "cleaned (snd (update_state st guess feedback))"
proof -
  from assms have "fst (feedback_loop 0 feedback st) = Inr ()"
    using update_state_returns_loop[of st guess feedback] feedback_loop_returns[of 0 feedback st]
    by auto
  then show ?thesis by (rule update_state_after_loop)
qed

theorem update_state_cleaned_witness:
  "fst (update_state (init_state [''SLATE'', ''STALE'']) ''LEAST''
      (zip ''LEAST'' [''P'', ''P'', ''C'', ''P'', ''P''])) = Inr () \<and>
   cleaned (snd (update_state (init_state [''SLATE'', ''STALE'']) ''LEAST''
      (zip ''LEAST'' [''P'', ''P'', ''C'', ''P'', ''P''])))"
proof -
  have run: "fst (update_state (init_state [''SLATE'', ''STALE'']) ''LEAST''
      (zip ''LEAST'' [''P'', ''P'', ''C'', ''P'', ''P''])) = Inr ()"
    by code_simp
  then have "fst (update_state (init_state [''SLATE'', ''STALE'']) ''LEAST''
      (zip ''LEAST'' [''P'', ''P'', ''C'', ''P'', ''P''])) = Inr () \<or>
    length (zip ''LEAST'' [''P'', ''P'', ''C'', ''P'', ''P''])
      \<le> length (correct (init_state [''SLATE'', ''STALE'']))"
    by (rule disjI1)
  from update_state_cleaned [OF this] run show ?thesis by (rule conjI [rotated])
qed

section \<open>The last check of \<^verbatim>\<open>is_word_valid\<close>\<close>

lemma check_positions_never_rejects:
  "present st \<inter> set (correct st) = {} \<Longrightarrow> check_positions st i word \<noteq> Inr False"
  by (induction word arbitrary: i) auto

lemma check_positions_passes:
  "present st \<inter> set (correct st) = {} \<Longrightarrow> i + length word \<le> length (correct st) \<Longrightarrow>
   check_positions st i word = Inr True"
  by (induction word arbitrary: i) auto

text \<open>
  Claim C10: in a state whose present set is disjoint from the letters of the fixed
  positions, the last loop of \<^verbatim>\<open>is_word_valid\<close> never rejects a word, every result
  \<^verbatim>\<open>is_word_valid\<close> returns is the result of the first three checks alone, and for a word
  no longer than the list of fixed positions the two agree altogether (results and errors).
\<close>

theorem is_word_valid_three_checks:
  assumes "present st \<inter> set (correct st) = {}"
  shows "check_positions st 0 word \<noteq> Inr False \<and>
         (\<forall>b. is_word_valid st word = Inr b \<longrightarrow> first_three_checks st word = Inr b) \<and>
         (length word \<le> length (correct st) \<longrightarrow>
            is_word_valid st word = first_three_checks st word)"
proof (intro conjI allI impI)
  show "check_positions st 0 word \<noteq> Inr False"
    using assms by (rule check_positions_never_rejects)
  show "first_three_checks st word = Inr b" if "is_word_valid st word = Inr b" for b
    using that check_positions_never_rejects[OF assms, of 0 word]
    by (cases b)
      (auto simp: is_word_valid_def first_three_checks_def split: sum.splits bool.splits if_splits)
  show "is_word_valid st word = first_three_checks st word"
    if "length word \<le> length (correct st)"
    using that check_positions_passes[OF assms, of 0 word]
    by (auto simp: is_word_valid_def first_three_checks_def split: sum.splits bool.splits)
qed

theorem is_word_valid_three_checks_witness:
  "present \<lparr>possible = [''SLATE''], correct = ''??A??'',
      present = {CHR ''L'', CHR ''E'', CHR ''S'', CHR ''T''}, absent = {}\<rparr>
     \<inter> set (correct \<lparr>possible = [''SLATE''], correct = ''??A??'',
      present = {CHR ''L'', CHR ''E'', CHR ''S'', CHR ''T''}, absent = {}\<rparr>) = {} \<and>
   is_word_valid \<lparr>possible = [''SLATE''], correct = ''??A??'',
      present = {CHR ''L'', CHR ''E'', CHR ''S'', CHR ''T''}, absent = {}\<rparr> ''SLATE'' = Inr True \<and>
   first_three_checks \<lparr>possible = [''SLATE''], correct = ''??A??'',
      present = {CHR ''L'', CHR ''E'', CHR ''S'', CHR ''T''}, absent = {}\<rparr> ''SLATE'' = Inr True"
proof -
  let ?st = "\<lparr>possible = [''SLATE''], correct = ''??A??'',
      present = {CHR ''L'', CHR ''E'', CHR ''S'', CHR ''T''}, absent = {}\<rparr>"
  have disj: "present ?st \<inter> set (correct ?st) = {}" by simp
  have run: "is_word_valid ?st ''SLATE'' = Inr True" by code_simp
  from is_word_valid_three_checks [OF disj, of "''SLATE''"] run
  have "first_three_checks ?st ''SLATE'' = Inr True" by blast
  with disj run show ?thesis by blast
qed

section \<open>Filtering soundness\<close>

subsection \<open>What the feedback loop records\<close>

lemma feedback_loop_before:
  "j < i \<Longrightarrow> correct (snd (feedback_loop i fb st)) ! j = correct st ! j"
  by (induction i fb st rule: feedback_loop.induct) auto

lemma feedback_loop_correct:
  "fst (feedback_loop i fb st) = Inr () \<Longrightarrow> j < length (correct st) \<Longrightarrow>
   correct (snd (feedback_loop i fb st)) ! j = correct st ! j \<or>
   (i \<le> j \<and> j - i < length fb \<and> fb ! (j - i) = (correct (snd (feedback_loop i fb st)) ! j, ''C''))"
proof (induction i fb st rule: feedback_loop.induct)
  case (1 i st)
  then show ?case by simp
next
  case (2 i letter color rest st)
  show ?case
  proof (cases "j = i")
    case True
    with "2.prems" feedback_loop_before[of i "Suc i" rest] show ?thesis
      by (auto split: if_splits)
  next
    case False
    with "2.prems" "2.IH" show ?thesis
      by (auto simp: Suc_diff_le nth_Cons' split: if_splits)
  qed
qed

lemma feedback_loop_present:
  "present (snd (feedback_loop i fb st)) \<subseteq> present st \<union> {l. (l, ''P'') \<in> set fb}"
  by (induction i fb st rule: feedback_loop.induct) auto

lemma feedback_loop_absent:
  "absent (snd (feedback_loop i fb st)) \<subseteq> absent st \<union> {l. (l, ''A'') \<in> set fb}"
  by (induction i fb st rule: feedback_loop.induct) auto

lemma feedback_loop_keeps_present:
  "fst (feedback_loop i fb st) = Inr () \<Longrightarrow> l \<in> present st \<Longrightarrow>
   l \<in> present (snd (feedback_loop i fb st)) \<or> l \<in> set (correct (snd (feedback_loop i fb st)))"
proof (induction i fb st rule: feedback_loop.induct)
  case (1 i st)
  then show ?case by simp
next
  case (2 i letter color rest st)
  show ?case
  proof (cases "color = ''C'' \<and> letter = l")
    case True
    with "2.prems" have lt: "i < length (correct st)" by (auto split: if_splits)
    let ?st1 = "st\<lparr>correct := (correct st)[i := letter], present := present st - {letter}\<rparr>"
    have "correct (snd (feedback_loop (Suc i) rest ?st1)) ! i = correct ?st1 ! i"
      by (rule feedback_loop_before) simp
    with lt True have "correct (snd (feedback_loop (Suc i) rest ?st1)) ! i = l" by simp
    moreover have "i < length (correct (snd (feedback_loop (Suc i) rest ?st1)))"
      using lt by (simp add: feedback_loop_length_correct)
    ultimately have "l \<in> set (correct (snd (feedback_loop (Suc i) rest ?st1)))"
      by (metis nth_mem)
    with True lt show ?thesis by simp
  next
    case False
    with "2.prems" "2.IH" show ?thesis
      by (auto split: if_splits)
  qed
qed

lemma feedback_loop_marked:
  "fst (feedback_loop i fb st) = Inr () \<Longrightarrow> (l, m) \<in> set fb \<Longrightarrow> m = ''C'' \<or> m = ''P'' \<Longrightarrow>
   l \<in> present (snd (feedback_loop i fb st)) \<or> l \<in> set (correct (snd (feedback_loop i fb st)))"
proof (induction i fb st rule: feedback_loop.induct)
  case (1 i st)
  then show ?case by simp
next
  case (2 i letter color rest st)
  show ?case
  proof (cases "(l, m) = (letter, color)")
    case True
    show ?thesis
    proof (cases "color = ''C''")
      case c: True
      with "2.prems" have lt: "i < length (correct st)" by (auto split: if_splits)
      let ?st1 = "st\<lparr>correct := (correct st)[i := letter], present := present st - {letter}\<rparr>"
      have "correct (snd (feedback_loop (Suc i) rest ?st1)) ! i = correct ?st1 ! i"
        by (rule feedback_loop_before) simp
      with lt True have "correct (snd (feedback_loop (Suc i) rest ?st1)) ! i = l" by simp
      moreover have "i < length (correct (snd (feedback_loop (Suc i) rest ?st1)))"
        using lt by (simp add: feedback_loop_length_correct)
      ultimately have "l \<in> set (correct (snd (feedback_loop (Suc i) rest ?st1)))"
        by (metis nth_mem)
      with c lt show ?thesis by simp
    next
      case False
      with True "2.prems"(3) have p: "color = ''P''" by simp
      let ?st1 = "st\<lparr>present := insert letter (present st)\<rparr>"
      from "2.prems"(1) p have ok: "fst (feedback_loop (Suc i) rest ?st1) = Inr ()" by simp
      from True have "l \<in> present ?st1" by simp
      from feedback_loop_keeps_present[OF ok this] p show ?thesis by simp
    qed
  next
    case False
    with "2.prems"(2) have "(l, m) \<in> set rest" by auto
    with "2.prems" "2.IH" show ?thesis
      by (auto split: if_splits)
  qed
qed

subsection \<open>The checks of \<^verbatim>\<open>is_word_valid\<close>\<close>

lemma check_correct_True_iff:
  "check_correct i cs word = Inr True \<longleftrightarrow>
   (\<forall>k<length cs. cs ! k \<noteq> CHR ''?'' \<longrightarrow> i + k < length word \<and> word ! (i + k) = cs ! k)"
proof (induction cs arbitrary: i)
  case Nil
  then show ?case by simp
next
  case (Cons c cs)
  show ?case
    by (simp add: Cons.IH All_less_Suc2 del: All_less_Suc)
qed

lemma check_correct_total:
  "i + length cs \<le> length word \<Longrightarrow> \<exists>b. check_correct i cs word = Inr b"
  by (induction cs arbitrary: i) auto

lemma check_positions_total:
  "i + length word \<le> length (correct st) \<Longrightarrow> \<exists>b. check_positions st i word = Inr b"
  by (induction word arbitrary: i) auto

lemma check_positions_no_present: "present st = {} \<Longrightarrow> check_positions st i word = Inr True"
  by (induction word arbitrary: i) auto

lemma check_positions_possible [simp]:
  "check_positions (st\<lparr>possible := ws\<rparr>) i word = check_positions st i word"
  by (induction word arbitrary: i) auto

lemma is_word_valid_possible [simp]:
  "is_word_valid (st\<lparr>possible := ws\<rparr>) word = is_word_valid st word"
  by (auto simp: is_word_valid_def split: sum.splits bool.splits)

lemma is_word_valid_total:
  "length word = length (correct st) \<Longrightarrow> \<exists>b. is_word_valid st word = Inr b"
  using check_correct_total[of 0 "correct st" word] check_positions_total[of 0 word st]
  by (auto simp: is_word_valid_def split: sum.splits bool.splits)

lemma is_word_valid_TrueD:
  assumes "is_word_valid st word = Inr True"
  shows "check_correct 0 (correct st) word = Inr True"
    and "present st \<subseteq> set word"
    and "\<And>a. a \<in> absent st \<Longrightarrow> a \<in> set word \<Longrightarrow> a \<in> set (correct st) \<or> a \<in> present st"
  using assms by (auto simp: is_word_valid_def split: sum.splits bool.splits if_splits)

subsection \<open>The secret passes the filter\<close>

lemma non_absent_pos:
  assumes "0 < non_absent guess p c"
  shows "\<exists>m. (c, m) \<in> set (zip guess p) \<and> (m = ''C'' \<or> m = ''P'')"
proof -
  from assms have "filter (\<lambda>(g, m). g = c \<and> (m = ''C'' \<or> m = ''P'')) (zip guess p) \<noteq> []"
    by (auto simp: non_absent_def)
  then obtain x where "x \<in> set (zip guess p)" "case x of (g, m) \<Rightarrow> g = c \<and> (m = ''C'' \<or> m = ''P'')"
    by (auto simp: filter_empty_conv)
  then show ?thesis by (cases x) auto
qed

lemma count_pos: "c \<in> set xs \<Longrightarrow> 0 < length (filter (\<lambda>t. t = c) xs)"
  by (induction xs) auto

lemma secret_passes_three_checks:
  assumes cl: "cleaned st" and valid: "is_word_valid st secret = Inr True"
      and pat: "get_pattern guess secret = Inr p"
      and ok: "fst (feedback_loop 0 (zip guess p) st) = Inr ()"
  shows "is_word_valid (clean_constraints (snd (feedback_loop 0 (zip guess p) st))) secret =
         check_positions (clean_constraints (snd (feedback_loop 0 (zip guess p) st))) 0 secret"
proof -
  let ?fb = "zip guess p"
  let ?st1 = "snd (feedback_loop 0 ?fb st)"
  let ?st2 = "clean_constraints ?st1"
  from get_pattern_facts[OF pat] obtain cn where
    len: "length p = 5" and
    c_iff: "\<And>j. j < 5 \<Longrightarrow>
       (p ! j = ''C'') = (j < length guess \<and> j < length secret \<and> guess ! j = secret ! j)" and
    marks: "\<And>j. j < length guess \<Longrightarrow>
       p ! j = ''C'' \<or> p ! j = ''P'' \<and> guess ! j \<in> set secret \<or>
       p ! j = ''A'' \<and> length (filter (\<lambda>t. t = guess ! j) secret) \<le> cn (guess ! j)" and
    cn: "\<And>c. cn c = non_absent guess p c"
    by blast
  note old = is_word_valid_TrueD[OF valid]
  have fixed: "check_correct 0 (correct ?st1) secret = Inr True"
    unfolding check_correct_True_iff
  proof (intro allI impI)
    fix k
    assume k: "k < length (correct ?st1)" and known: "correct ?st1 ! k \<noteq> CHR ''?''"
    from k have k': "k < length (correct st)" by (simp add: feedback_loop_length_correct)
    from feedback_loop_correct[OF ok k']
    show "0 + k < length secret \<and> secret ! (0 + k) = correct ?st1 ! k"
    proof
      assume same: "correct ?st1 ! k = correct st ! k"
      with old(1) k' known show ?thesis by (auto simp: check_correct_True_iff)
    next
      assume "0 \<le> k \<and> k - 0 < length ?fb \<and> ?fb ! (k - 0) = (correct ?st1 ! k, ''C'')"
      then have "k < length guess" "k < length p" "guess ! k = correct ?st1 ! k" "p ! k = ''C''"
        by auto
      with c_iff[of k] len show ?thesis by auto
    qed
  qed
  have required: "present ?st2 \<subseteq> set secret"
  proof
    fix l
    assume "l \<in> present ?st2"
    then have "l \<in> present ?st1" by (simp add: clean_constraints_def Let_def)
    with feedback_loop_present[of 0 ?fb st] have "l \<in> present st \<or> (l, ''P'') \<in> set ?fb" by auto
    then show "l \<in> set secret"
    proof
      assume "l \<in> present st"
      with old(2) show ?thesis by auto
    next
      assume "(l, ''P'') \<in> set ?fb"
      then obtain k where "k < length guess" "guess ! k = l" "p ! k = ''P''"
        by (auto simp: in_set_zip)
      with marks[of k] show ?thesis by auto
    qed
  qed
  have excluded: "a \<notin> set secret"
    if a: "a \<in> absent ?st1" "a \<notin> set (correct ?st1)" "a \<notin> present ?st1" for a
  proof
    assume sec: "a \<in> set secret"
    from a(1) feedback_loop_absent[of 0 ?fb st] have "a \<in> absent st \<or> (a, ''A'') \<in> set ?fb" by auto
    then show False
    proof
      assume "a \<in> absent st"
      with old(3)[OF _ sec] cl show False by (auto simp: cleaned_def)
    next
      assume "(a, ''A'') \<in> set ?fb"
      then obtain k where k: "k < length guess" "guess ! k = a" "p ! k = ''A''"
        by (auto simp: in_set_zip)
      with marks[of k] have "length (filter (\<lambda>t. t = a) secret) \<le> cn a" by auto
      with count_pos[OF sec] cn[of a] have "0 < non_absent guess p a" by linarith
      from non_absent_pos[OF this] obtain m where "(a, m) \<in> set ?fb" "m = ''C'' \<or> m = ''P''"
        by blast
      from feedback_loop_marked[OF ok this] a show False by simp
    qed
  qed
  have no_excluded: "\<not> (\<exists>a \<in> Set.filter (\<lambda>a. a \<notin> set (correct ?st2) \<and> a \<notin> present ?st2) (absent ?st2).
      a \<in> set secret)"
    using excluded by (auto simp: clean_constraints_def Let_def)
  from required have req: "\<not> (\<exists>p \<in> present ?st2. p \<notin> set secret)" by auto
  from fixed have "check_correct 0 (correct ?st2) secret = Inr True"
    by (simp add: clean_constraints_correct)
  with req no_excluded show ?thesis
    by (auto simp: is_word_valid_def)
qed

subsection \<open>The outcomes of \<^verbatim>\<open>update_state\<close>\<close>

lemma filter_loop_returns_all:
  "filter_loop st ws acc = Inr np \<Longrightarrow> w \<in> set ws \<Longrightarrow> \<exists>b. is_word_valid st w = Inr b"
proof (induction ws arbitrary: acc)
  case Nil
  then show ?case by simp
next
  case (Cons x ws)
  then show ?case by (cases "is_word_valid st x") auto
qed

lemma filter_loop_total:
  "\<forall>w \<in> set ws. \<exists>b. is_word_valid st w = Inr b \<Longrightarrow> \<exists>np. filter_loop st ws acc = Inr np"
  by (induction ws arbitrary: acc) auto

lemma update_state_returned:
  assumes "update_state st g fb = (Inr (), st')"
  shows "fst (feedback_loop 0 fb st) = Inr ()"
    and "st' = (clean_constraints (snd (feedback_loop 0 fb st)))
           \<lparr>possible := filter (\<lambda>w. is_word_valid (clean_constraints (snd (feedback_loop 0 fb st))) w
                                     = Inr True) (possible st)\<rparr>"
    and "\<And>w. w \<in> set (possible st) \<Longrightarrow>
           \<exists>b. is_word_valid (clean_constraints (snd (feedback_loop 0 fb st))) w = Inr b"
proof -
  obtain r st1 where loop: "feedback_loop 0 fb st = (r, st1)" by (cases "feedback_loop 0 fb st")
  from assms loop have r: "r = Inr ()"
    by (cases r) (auto simp: update_state_def)
  with loop show "fst (feedback_loop 0 fb st) = Inr ()" by simp
  from feedback_loop_possible[of 0 fb st] loop have poss: "possible st1 = possible st" by simp
  from assms loop r obtain np where
    np: "filter_loop (clean_constraints st1) (possible st) [] = Inr np" and
    st': "st' = (clean_constraints st1)\<lparr>possible := np\<rparr>"
    by (auto simp: update_state_def Let_def clean_constraints_possible poss split: sum.splits)
  from filter_loop_eq[OF np] st' loop
  show "st' = (clean_constraints (snd (feedback_loop 0 fb st)))
           \<lparr>possible := filter (\<lambda>w. is_word_valid (clean_constraints (snd (feedback_loop 0 fb st))) w
                                     = Inr True) (possible st)\<rparr>"
    by simp
  show "\<exists>b. is_word_valid (clean_constraints (snd (feedback_loop 0 fb st))) w = Inr b"
    if "w \<in> set (possible st)" for w
    using filter_loop_returns_all[OF np that] loop by simp
qed

lemma update_state_raised:
  assumes "fst (update_state st g fb) = Inl e"
  shows "possible (snd (update_state st g fb)) = possible st"
proof -
  obtain r st1 where loop: "feedback_loop 0 fb st = (r, st1)" by (cases "feedback_loop 0 fb st")
  from feedback_loop_possible[of 0 fb st] loop have poss: "possible st1 = possible st" by simp
  from assms loop poss show ?thesis
    by (auto simp: update_state_def Let_def clean_constraints_possible split: sum.splits)
qed

lemma update_state_returns:
  assumes "fst (feedback_loop 0 fb st) = Inr ()"
    and "\<forall>w \<in> set (possible st).
           \<exists>b. is_word_valid (clean_constraints (snd (feedback_loop 0 fb st))) w = Inr b"
  shows "fst (update_state st g fb) = Inr ()"
proof -
  obtain r st1 where loop: "feedback_loop 0 fb st = (r, st1)" by (cases "feedback_loop 0 fb st")
  with assms(1) have r: "r = Inr ()" by simp
  from feedback_loop_possible[of 0 fb st] loop have poss: "possible st1 = possible st" by simp
  from assms(2) loop have "\<forall>w \<in> set (possible st). \<exists>b. is_word_valid (clean_constraints st1) w = Inr b"
    by simp
  from filter_loop_total[OF this, of "[]"] obtain np
    where "filter_loop (clean_constraints st1) (possible st) [] = Inr np" by blast
  with loop r poss show ?thesis
    by (simp add: update_state_def Let_def clean_constraints_possible)
qed

lemma is_word_valid_init: "is_word_valid (init_state ans) w = Inr True"
proof -
  have "check_correct 0 (replicate 5 CHR ''?'') w = Inr True"
    by (simp add: check_correct_True_iff)
  then show ?thesis
    by (simp add: is_word_valid_def init_state_def check_positions_no_present)
qed

lemma reachable_invariant:
  "reachable st \<Longrightarrow>
   cleaned st \<and> length (correct st) = 5 \<and> (\<forall>w \<in> set (possible st). is_word_valid st w = Inr True)"
proof (induction rule: reachable.induct)
  case (reachable_init ans)
  show ?case
    by (simp add: is_word_valid_init) (simp add: init_state_def cleaned_def)
next
  case (reachable_update st guess feedback st')
  note ret = update_state_returned[OF reachable_update.hyps(2)]
  from reachable_update.hyps(2) have st': "st' = snd (update_state st guess feedback)" by simp
  have "cleaned st'"
    unfolding st' by (rule update_state_after_loop) (rule ret(1))
  moreover have "length (correct st') = 5"
    using reachable_update.IH
    by (subst ret(2)) (simp add: clean_constraints_correct feedback_loop_length_correct)
  moreover have "\<forall>w \<in> set (possible st'). is_word_valid st' w = Inr True"
    by (subst (1 2) ret(2)) simp
  ultimately show ?case by blast
qed

text \<open>
  Claim C1: in every knowledge state of a session (the initial state, or a state left by
  returning calls of \<^verbatim>\<open>update_state\<close> with any guesses and feedback), if the secret is in
  the possible list and the feedback pairs the letters of the guess with the pattern
  \<^verbatim>\<open>get_pattern\<close> computes for the guess against the secret, then the secret is in the
  possible list after \<^verbatim>\<open>update_state\<close>; and the call returns when the possible words have
  five letters.
\<close>

theorem update_state_keeps_secret:
  assumes "reachable st" and "secret \<in> set (possible st)"
    and "get_pattern guess secret = Inr p"
  shows "secret \<in> set (possible (snd (update_state st guess (zip guess p)))) \<and>
         ((\<forall>w \<in> set (possible st). length w = 5) \<longrightarrow>
            fst (update_state st guess (zip guess p)) = Inr ())"
proof -
  let ?fb = "zip guess p"
  let ?st2 = "clean_constraints (snd (feedback_loop 0 ?fb st))"
  from reachable_invariant[OF assms(1)] assms(2) have
    cl: "cleaned st" and len: "length (correct st) = 5" and
    valid: "is_word_valid st secret = Inr True"
    by auto
  from get_pattern_facts[OF assms(3)] have "length p = 5" by blast
  with len have "0 + length ?fb \<le> length (correct st)" by simp
  then have ok: "fst (feedback_loop 0 ?fb st) = Inr ()" by (rule feedback_loop_returns)
  have cl2: "present ?st2 \<inter> set (correct ?st2) = {}"
    using cleaned_clean_constraints[of "snd (feedback_loop 0 ?fb st)"] by (simp add: cleaned_def)
  have not_rejected: "is_word_valid ?st2 secret \<noteq> Inr False"
    using secret_passes_three_checks[OF cl valid assms(3) ok]
      check_positions_never_rejects[OF cl2, of 0 secret]
    by simp
  have stays: "secret \<in> set (possible (snd (update_state st guess ?fb)))"
  proof (cases "fst (update_state st guess ?fb)")
    case (Inl e)
    from update_state_raised[OF Inl] assms(2) show ?thesis by simp
  next
    case (Inr u)
    then have "update_state st guess ?fb = (Inr (), snd (update_state st guess ?fb))"
      by (cases "update_state st guess ?fb") simp
    note ret = update_state_returned[OF this]
    from ret(3)[OF assms(2)] not_rejected have "is_word_valid ?st2 secret = Inr True"
      by (metis (full_types))
    with assms(2) show ?thesis by (subst ret(2)) simp
  qed
  have returns: "fst (update_state st guess ?fb) = Inr ()"
    if five: "\<forall>w \<in> set (possible st). length w = 5"
  proof (rule update_state_returns[OF ok], rule ballI)
    fix w
    assume "w \<in> set (possible st)"
    with five len have "length w = length (correct ?st2)"
      by (simp add: clean_constraints_correct feedback_loop_length_correct)
    then show "\<exists>b. is_word_valid ?st2 w = Inr b" by (rule is_word_valid_total)
  qed
  from stays returns show ?thesis by blast
qed

theorem update_state_keeps_secret_witness:
  "reachable \<lparr>possible = [''SLATE'', ''STALE''], correct = ''??A??'',
      present = {CHR ''L'', CHR ''E'', CHR ''S'', CHR ''T''}, absent = {}\<rparr> \<and>
   get_pattern ''STALE'' ''SLATE'' = Inr [''C'', ''P'', ''C'', ''P'', ''C''] \<and>
   ''SLATE'' \<in> set (possible (snd (update_state
      \<lparr>possible = [''SLATE'', ''STALE''], correct = ''??A??'',
        present = {CHR ''L'', CHR ''E'', CHR ''S'', CHR ''T''}, absent = {}\<rparr>
      ''STALE'' (zip ''STALE'' [''C'', ''P'', ''C'', ''P'', ''C''])))) \<and>
   fst (update_state
      \<lparr>possible = [''SLATE'', ''STALE''], correct = ''??A??'',
        present = {CHR ''L'', CHR ''E'', CHR ''S'', CHR ''T''}, absent = {}\<rparr>
      ''STALE'' (zip ''STALE'' [''C'', ''P'', ''C'', ''P'', ''C''])) = Inr ()"
proof -
  let ?st = "\<lparr>possible = [''SLATE'', ''STALE''], correct = ''??A??'',
      present = {CHR ''L'', CHR ''E'', CHR ''S'', CHR ''T''}, absent = {}\<rparr>"
  have first: "update_state (init_state [''CRANE'', ''SLATE'', ''PLATE'', ''STALE'']) ''LEAST''
      (zip ''LEAST'' [''P'', ''P'', ''C'', ''P'', ''P'']) = (Inr (), ?st)"
    by code_simp
  have reach: "reachable ?st"
    by (rule reachable_update [OF reachable_init first])
  have mem: "''SLATE'' \<in> set (possible ?st)" by simp
  have pat: "get_pattern ''STALE'' ''SLATE'' = Inr [''C'', ''P'', ''C'', ''P'', ''C'']"
    by (simp add: get_pattern_def eval_nat_numeral)
  have five: "\<forall>w \<in> set (possible ?st). length w = 5" by simp
  from update_state_keeps_secret [OF reach mem pat] five reach pat
  show ?thesis by blast
qed

section \<open>Scoring against an empty possible list\<close>

text \<open>
  Claim C4, at a failing input: the answers are CRANE alone, and the feedback for the guess
  CRANE is entered as five times Absent. \<^verbatim>\<open>update_state\<close> leaves the possible list empty;
  \<^verbatim>\<open>calculate_entropy\<close> then returns the score 0 without an error, and \<^verbatim>\<open>get_best_guess\<close>
  returns the first allowed word, whatever the float arithmetic: no float operation is
  evaluated.
\<close>

theorem empty_possible_scores_zero:
  "possible (snd (update_state (init_state [''CRANE'']) ''CRANE''
      (zip ''CRANE'' [''A'', ''A'', ''A'', ''A'', ''A'']))) = [] \<and>
   fst (calculate_entropy ops Map.empty
      (snd (update_state (init_state [''CRANE'']) ''CRANE''
         (zip ''CRANE'' [''A'', ''A'', ''A'', ''A'', ''A''])))
      ''CRANE'') = Inr 0 \<and>
   fst (get_best_guess ops Map.empty
      ((init_solver [''CRANE''] None)
         \<lparr>state := snd (update_state (init_state [''CRANE'']) ''CRANE''
            (zip ''CRANE'' [''A'', ''A'', ''A'', ''A'', ''A'']))\<rparr>)) = Inr (Some ''CRANE'')"
proof -
  have run: "possible (snd (update_state (init_state [''CRANE'']) ''CRANE''
      (zip ''CRANE'' [''A'', ''A'', ''A'', ''A'', ''A'']))) = []"
    by code_simp
  then show ?thesis
    by (simp add: calculate_entropy_def get_best_guess_def init_solver_def)
qed

section \<open>The best guess is the first maximum\<close>

lemma count_loop_sound:
  "cache_sound cache \<Longrightarrow> cache_sound (snd (count_loop cache word ps pc))"
proof (induction ps arbitrary: cache pc)
  case Nil
  then show ?case by simp
next
  case (Cons p ps)
  from get_pattern_cached_sound[OF Cons.prems, of word p] Cons.IH show ?case
    by (cases "get_pattern_cached cache word p") (auto split: sum.splits)
qed

lemma count_loop_cache_free:
  "cache_sound c1 \<Longrightarrow> cache_sound c2 \<Longrightarrow>
   fst (count_loop c1 word ps pc) = fst (count_loop c2 word ps pc)"
proof (induction ps arbitrary: c1 c2 pc)
  case Nil
  then show ?case by simp
next
  case (Cons p ps)
  obtain r1 c1' where g1: "get_pattern_cached c1 word p = (r1, c1')"
    by (cases "get_pattern_cached c1 word p")
  obtain r2 c2' where g2: "get_pattern_cached c2 word p = (r2, c2')"
    by (cases "get_pattern_cached c2 word p")
  from get_pattern_cached_result[OF Cons.prems(1), of word p] g1 have r1: "r1 = get_pattern word p" by simp
  from get_pattern_cached_result[OF Cons.prems(2), of word p] g2 have r2: "r2 = get_pattern word p" by simp
  from get_pattern_cached_sound[OF Cons.prems(1), of word p] g1 have s1: "cache_sound c1'" by simp
  from get_pattern_cached_sound[OF Cons.prems(2), of word p] g2 have s2: "cache_sound c2'" by simp
  show ?case
  proof (cases "get_pattern word p")
    case (Inl e)
    with g1 g2 r1 r2 show ?thesis by simp
  next
    case (Inr pat)
    with g1 g2 r1 r2 Cons.IH[OF s1 s2] show ?thesis by simp
  qed
qed

lemma calculate_entropy_sound:
  "cache_sound cache \<Longrightarrow> cache_sound (snd (calculate_entropy ops cache st word))"
  using count_loop_sound[of cache word "possible st" "[]"]
  by (cases "count_loop cache word (possible st) []")
     (auto simp: calculate_entropy_def Let_def split: sum.splits)

lemma calculate_entropy_cache_free:
  assumes "cache_sound cache"
  shows "fst (calculate_entropy ops cache st word) = entropy_of ops st word"
proof -
  from count_loop_cache_free[OF assms cache_sound_empty, of word "possible st" "[]"]
  show ?thesis
    by (cases "count_loop cache word (possible st) []"; cases "count_loop Map.empty word (possible st) []")
       (auto simp: entropy_of_def calculate_entropy_def Let_def split: sum.splits)
qed

lemma best_loop_result:
  "cache_sound cache \<Longrightarrow> fst (best_loop ops cache st ws bw bs) = Inr r \<Longrightarrow>
   \<exists>score. (\<forall>w \<in> set ws. entropy_of ops st w = Inr (score w)) \<and>
     ((\<forall>w \<in> set ws. \<not> exceeds (score w) bs) \<and> r = bw \<or>
      (\<exists>before word after. ws = before @ word # after \<and> r = Some word \<and>
         exceeds (score word) bs \<and>
         (\<forall>w \<in> set before. score w < score word) \<and> (\<forall>w \<in> set after. score w \<le> score word)))"
proof (induction ws arbitrary: cache bw bs)
  case Nil
  then show ?case by simp
next
  case (Cons w ws)
  obtain res cache1 where ce: "calculate_entropy ops cache st w = (res, cache1)"
    by (cases "calculate_entropy ops cache st w")
  from calculate_entropy_sound[OF Cons.prems(1), of ops st w] ce have s1: "cache_sound cache1" by simp
  from Cons.prems(2) ce obtain s where res: "res = Inr s" by (cases res) auto
  from calculate_entropy_cache_free[OF Cons.prems(1), of ops st w] ce res
  have sw: "entropy_of ops st w = Inr s" by simp
  show ?case
  proof (cases "exceeds s bs")
    case True
    with Cons.prems(2) ce res have "fst (best_loop ops cache1 st ws (Some w) (Some s)) = Inr r" by simp
    from Cons.IH[OF s1 this] obtain score where
      sc: "\<forall>x \<in> set ws. entropy_of ops st x = Inr (score x)" and
      alt: "(\<forall>x \<in> set ws. \<not> exceeds (score x) (Some s)) \<and> r = Some w \<or>
        (\<exists>before word after. ws = before @ word # after \<and> r = Some word \<and>
           exceeds (score word) (Some s) \<and>
           (\<forall>x \<in> set before. score x < score word) \<and> (\<forall>x \<in> set after. score x \<le> score word))"
      by blast
    let ?score = "score(w := s)"
    have sc': "\<forall>x \<in> set (w # ws). entropy_of ops st x = Inr (?score x)"
      using sc sw by auto
    have agree: "?score x = score x" if "x \<in> set ws" for x
      using that sc sw by (cases "x = w") auto
    from alt show ?thesis
    proof
      assume a: "(\<forall>x \<in> set ws. \<not> exceeds (score x) (Some s)) \<and> r = Some w"
      have "w # ws = [] @ w # ws \<and> r = Some w \<and> exceeds (?score w) bs \<and>
          (\<forall>x \<in> set []. ?score x < ?score w) \<and> (\<forall>x \<in> set ws. ?score x \<le> ?score w)"
        using a True agree by (auto simp: not_less)
      with sc' show ?thesis by blast
    next
      assume "\<exists>before word after. ws = before @ word # after \<and> r = Some word \<and>
           exceeds (score word) (Some s) \<and>
           (\<forall>x \<in> set before. score x < score word) \<and> (\<forall>x \<in> set after. score x \<le> score word)"
      then obtain before word after where b: "ws = before @ word # after" "r = Some word"
        "s < score word" "\<forall>x \<in> set before. score x < score word"
        "\<forall>x \<in> set after. score x \<le> score word"
        by auto
      have ex: "exceeds (score word) bs"
        using True b(3) by (cases bs) auto
      have inws: "word \<in> set ws" "set before \<subseteq> set ws" "set after \<subseteq> set ws" using b(1) by auto
      have "w # ws = (w # before) @ word # after \<and> r = Some word \<and> exceeds (?score word) bs \<and>
          (\<forall>x \<in> set (w # before). ?score x < ?score word) \<and>
          (\<forall>x \<in> set after. ?score x \<le> ?score word)"
        using b ex inws agree by (auto simp: subset_iff)
      with sc' show ?thesis by blast
    qed
  next
    case False
    then obtain b where bs: "bs = Some b" and le: "s \<le> b" by (cases bs) auto
    from False Cons.prems(2) ce res have "fst (best_loop ops cache1 st ws bw bs) = Inr r" by simp
    from Cons.IH[OF s1 this] obtain score where
      sc: "\<forall>x \<in> set ws. entropy_of ops st x = Inr (score x)" and
      alt: "(\<forall>x \<in> set ws. \<not> exceeds (score x) bs) \<and> r = bw \<or>
        (\<exists>before word after. ws = before @ word # after \<and> r = Some word \<and>
           exceeds (score word) bs \<and>
           (\<forall>x \<in> set before. score x < score word) \<and> (\<forall>x \<in> set after. score x \<le> score word))"
      by blast
    let ?score = "score(w := s)"
    have sc': "\<forall>x \<in> set (w # ws). entropy_of ops st x = Inr (?score x)"
      using sc sw by auto
    have agree: "?score x = score x" if "x \<in> set ws" for x
      using that sc sw by (cases "x = w") auto
    from alt show ?thesis
    proof
      assume a: "(\<forall>x \<in> set ws. \<not> exceeds (score x) bs) \<and> r = bw"
      have "(\<forall>x \<in> set (w # ws). \<not> exceeds (?score x) bs) \<and> r = bw"
        using a False agree by auto
      with sc' show ?thesis by blast
    next
      assume "\<exists>before word after. ws = before @ word # after \<and> r = Some word \<and>
           exceeds (score word) bs \<and>
           (\<forall>x \<in> set before. score x < score word) \<and> (\<forall>x \<in> set after. score x \<le> score word)"
      then obtain before word after where b: "ws = before @ word # after" "r = Some word"
        "b < score word" "\<forall>x \<in> set before. score x < score word"
        "\<forall>x \<in> set after. score x \<le> score word"
        using bs by auto
      have inws: "word \<in> set ws" "set before \<subseteq> set ws" "set after \<subseteq> set ws" using b(1) by auto
      have "w # ws = (w # before) @ word # after \<and> r = Some word \<and> exceeds (?score word) bs \<and>
          (\<forall>x \<in> set (w # before). ?score x < ?score word) \<and>
          (\<forall>x \<in> set after. ?score x \<le> ?score word)"
        using b bs le inws agree by (auto simp: subset_iff)
      with sc' show ?thesis by blast
    qed
  qed
qed

lemma best_loop_cache_free:
  "cache_sound c1 \<Longrightarrow> cache_sound c2 \<Longrightarrow>
   fst (best_loop ops c1 st ws bw bs) = fst (best_loop ops c2 st ws bw bs)"
proof (induction ws arbitrary: c1 c2 bw bs)
  case Nil
  then show ?case by simp
next
  case (Cons w ws)
  obtain r1 c1' where e1: "calculate_entropy ops c1 st w = (r1, c1')"
    by (cases "calculate_entropy ops c1 st w")
  obtain r2 c2' where e2: "calculate_entropy ops c2 st w = (r2, c2')"
    by (cases "calculate_entropy ops c2 st w")
  from calculate_entropy_cache_free[OF Cons.prems(1), of ops st w] e1 have r1: "r1 = entropy_of ops st w" by simp
  from calculate_entropy_cache_free[OF Cons.prems(2), of ops st w] e2 have r2: "r2 = entropy_of ops st w" by simp
  from calculate_entropy_sound[OF Cons.prems(1), of ops st w] e1 have s1: "cache_sound c1'" by simp
  from calculate_entropy_sound[OF Cons.prems(2), of ops st w] e2 have s2: "cache_sound c2'" by simp
  show ?case
  proof (cases "entropy_of ops st w")
    case (Inl e)
    with e1 e2 r1 r2 show ?thesis by simp
  next
    case (Inr s)
    with e1 e2 r1 r2 Cons.IH[OF s1 s2] show ?thesis by simp
  qed
qed

lemma increment_pos:
  "\<forall>n \<in> snd ` set pc. 0 < n \<Longrightarrow> \<forall>n \<in> snd ` set (increment pc k). 0 < n"
  by (induction pc k rule: increment.induct) auto

lemma count_loop_returns:
  "cache_sound cache \<Longrightarrow> length word \<le> 5 \<Longrightarrow> \<forall>n \<in> snd ` set pc. 0 < n \<Longrightarrow>
   \<exists>pc'. fst (count_loop cache word ps pc) = Inr pc' \<and> (\<forall>n \<in> snd ` set pc'. 0 < n) \<and>
         (ps = [] \<longrightarrow> pc' = pc)"
proof (induction ps arbitrary: cache pc)
  case Nil
  then show ?case by simp
next
  case (Cons p ps)
  obtain r c' where g: "get_pattern_cached cache word p = (r, c')"
    by (cases "get_pattern_cached cache word p")
  from get_pattern_total[OF Cons.prems(2), of p] obtain pat where pat: "get_pattern word p = Inr pat"
    by blast
  from get_pattern_cached_result[OF Cons.prems(1), of word p] g pat have r: "r = Inr pat" by simp
  from get_pattern_cached_sound[OF Cons.prems(1), of word p] g have s: "cache_sound c'" by simp
  from Cons.IH[OF s Cons.prems(2) increment_pos[OF Cons.prems(3), of pat]] g r
  show ?case by auto
qed

lemma entropy_sum_returns:
  "0 < tot \<Longrightarrow> \<forall>n \<in> set counts. 0 < n \<Longrightarrow> \<exists>s. entropy_sum ops tot counts acc = Inr s"
  by (induction counts arbitrary: acc) auto

lemma calculate_entropy_returns:
  assumes "cache_sound cache" and "length word \<le> 5"
  shows "\<exists>s. fst (calculate_entropy ops cache st word) = Inr s"
proof -
  from count_loop_returns[OF assms, of "[]" "possible st"] obtain pc' where
    pc: "fst (count_loop cache word (possible st) []) = Inr pc'" and
    pos: "\<forall>n \<in> snd ` set pc'. 0 < n" and
    emp: "possible st = [] \<longrightarrow> pc' = []"
    by auto
  have "\<exists>s. entropy_sum ops (length (possible st)) (map snd pc') 0 = Inr s"
  proof (cases "possible st = []")
    case True
    with emp show ?thesis by simp
  next
    case False
    then have "0 < length (possible st)" by simp
    moreover from pos have "\<forall>n \<in> set (map snd pc'). 0 < n" by simp
    ultimately show ?thesis by (rule entropy_sum_returns)
  qed
  with pc show ?thesis
    by (cases "count_loop cache word (possible st) []")
       (auto simp: calculate_entropy_def Let_def)
qed

lemma best_loop_returns:
  "cache_sound cache \<Longrightarrow> \<forall>w \<in> set ws. length w \<le> 5 \<Longrightarrow>
   \<exists>r. fst (best_loop ops cache st ws bw bs) = Inr r"
proof (induction ws arbitrary: cache bw bs)
  case Nil
  then show ?case by simp
next
  case (Cons w ws)
  obtain res c' where e: "calculate_entropy ops cache st w = (res, c')"
    by (cases "calculate_entropy ops cache st w")
  from Cons.prems(2) have "length w \<le> 5" by simp
  from calculate_entropy_returns[OF Cons.prems(1) this, of ops st] e obtain s where res: "res = Inr s"
    by auto
  from calculate_entropy_sound[OF Cons.prems(1), of ops st w] e have s: "cache_sound c'" by simp
  from Cons.prems(2) have rest: "\<forall>w \<in> set ws. length w \<le> 5" by simp
  from Cons.IH[OF s rest] e res show ?case by simp
qed

text \<open>
  Claim C6: \<^verbatim>\<open>get_best_guess\<close> returns a result whenever the candidate words have at most
  five letters, and a result it returns is the same whatever earlier calls filled the
  pattern cache: \<^verbatim>\<open>None\<close> for an empty candidate pool, and otherwise the word at the first
  position of the pool whose score is strictly greater than the score of every word before
  it and not exceeded by the score of any word after it. The scores are the values
  \<^verbatim>\<open>calculate_entropy\<close> computes with the float arithmetic in use, rounding and order of
  summation included; the statement holds for every such arithmetic.
\<close>

theorem get_best_guess_first_maximum:
  "((\<forall>w \<in> set (take 2315 (allowed sv)). length w \<le> 5) \<longrightarrow>
      (\<exists>best. fst (get_best_guess ops (cache_after Map.empty calls) sv) = Inr best)) \<and>
   (\<forall>best. fst (get_best_guess ops (cache_after Map.empty calls) sv) = Inr best \<longrightarrow>
      (\<forall>calls'. fst (get_best_guess ops (cache_after Map.empty calls') sv) = Inr best) \<and>
      (\<exists>score.
         (\<forall>w \<in> set (take 2315 (allowed sv)). entropy_of ops (state sv) w = Inr (score w)) \<and>
         (take 2315 (allowed sv) = [] \<and> best = None \<or>
          (\<exists>before word after.
             take 2315 (allowed sv) = before @ word # after \<and> best = Some word \<and>
             (\<forall>w \<in> set before. score w < score word) \<and>
             (\<forall>w \<in> set after. score w \<le> score word)))))"
proof (intro conjI allI impI)
  have sound: "cache_sound (cache_after Map.empty cs)" for cs
    by (rule cache_after_sound) (rule cache_sound_empty)
  show "\<exists>best. fst (get_best_guess ops (cache_after Map.empty calls) sv) = Inr best"
    if "\<forall>w \<in> set (take 2315 (allowed sv)). length w \<le> 5"
    using best_loop_returns[OF sound that] by (simp add: get_best_guess_def)
  fix best
  assume ret: "fst (get_best_guess ops (cache_after Map.empty calls) sv) = Inr best"
  show "fst (get_best_guess ops (cache_after Map.empty calls') sv) = Inr best" for calls'
    using ret best_loop_cache_free[OF sound[of calls'] sound[of calls], of ops "state sv"
        "take 2315 (allowed sv)" None None]
    by (simp add: get_best_guess_def)
  from ret have "fst (best_loop ops (cache_after Map.empty calls) (state sv) (take 2315 (allowed sv))
      None None) = Inr best"
    by (simp add: get_best_guess_def)
  from best_loop_result[OF sound this]
  show "\<exists>score.
         (\<forall>w \<in> set (take 2315 (allowed sv)). entropy_of ops (state sv) w = Inr (score w)) \<and>
         (take 2315 (allowed sv) = [] \<and> best = None \<or>
          (\<exists>before word after.
             take 2315 (allowed sv) = before @ word # after \<and> best = Some word \<and>
             (\<forall>w \<in> set before. score w < score word) \<and>
             (\<forall>w \<in> set after. score w \<le> score word)))"
    by (auto simp del: take_eq_Nil)
qed

theorem get_best_guess_first_maximum_witness:
  "fst (get_best_guess exact_ops (cache_after Map.empty [])
      \<lparr>answers = [''ABIDE'', ''ABODE''], allowed = [''CRANE'', ''ABIDE'', ''ABODE''],
       state = init_state [''ABIDE'', ''ABODE'']\<rparr>) = Inr (Some ''ABIDE'') \<and>
   fst (get_best_guess exact_ops (cache_after Map.empty [(''SLATE'', ''CRANE'')])
      \<lparr>answers = [''ABIDE'', ''ABODE''], allowed = [''CRANE'', ''ABIDE'', ''ABODE''],
       state = init_state [''ABIDE'', ''ABODE'']\<rparr>) = Inr (Some ''ABIDE'')"
proof -
  let ?sv = "\<lparr>answers = [''ABIDE'', ''ABODE''], allowed = [''CRANE'', ''ABIDE'', ''ABODE''],
       state = init_state [''ABIDE'', ''ABODE'']\<rparr>"
  have run: "fst (get_best_guess exact_ops (cache_after Map.empty []) ?sv) = Inr (Some ''ABIDE'')"
    by (simp add: get_best_guess_def calculate_entropy_def init_state_def get_pattern_cached_def
        exact_ops_def
        get_pattern_def eval_nat_numeral log_divide Let_def)
  from get_best_guess_first_maximum [where ops = exact_ops and sv = ?sv and calls = "[]"] run
  have "fst (get_best_guess exact_ops (cache_after Map.empty [(''SLATE'', ''CRANE'')]) ?sv)
      = Inr (Some ''ABIDE'')"
    by blast
  with run show ?thesis by (rule conjI)
qed

end
